theory Spec2Isabelle
  imports Complex_Main
begin

section \<open>Shared arithmetic of the generators\<close>

text \<open>
  The generators are Python modules on top of Sage. Every exception the code can raise is
  a value of \<open>error\<close>; a function that can raise returns \<open>error + 'a\<close> (\<open>Inl\<close> the
  exception). A \<^verbatim>\<open>while True\<close> loop without a bound is a
  \<^theory_text>\<open>partial_function\<close> into \<open>option\<close>: \<open>None\<close> is a run that never leaves
  the loop. Sage integers are \<open>int\<close>, Sage rationals are \<open>rat\<close>.
\<close>

datatype error =
  AssertionError string | ZeroDivisionError | IndexError | ValueError | RuntimeError
  | TypeError | ArithmeticError

text \<open>\<open>floor(sqrt(n))\<close> on integers, by halving; \<open>0\<close> below \<open>1\<close>.\<close>

definition isqrt_step :: "int \<Rightarrow> int \<Rightarrow> int" where
  "isqrt_step n r = (if (r + 1) * (r + 1) \<le> n then r + 1 else r)"

function isqrt :: "int \<Rightarrow> int" where
  "isqrt n = (if n < 4 then (if n < 1 then 0 else 1)
              else isqrt_step n (2 * isqrt (n div 4)))"
  by pat_completeness auto
termination
  by (relation "measure (\<lambda>n. nat n)") auto

declare isqrt.simps [simp del]

text \<open>Sage's \<^verbatim>\<open>is_square\<close> on an integer and on a rational (numerator and
  denominator of the reduced fraction are squares, the value is not negative), and the
  square root Sage returns for a square: the non-negative one.\<close>

definition is_square :: "int \<Rightarrow> bool" where
  "is_square n = (0 \<le> n \<and> isqrt n * isqrt n = n)"

definition is_square_rat :: "rat \<Rightarrow> bool" where
  "is_square_rat q = (is_square (fst (quotient_of q)) \<and> is_square (snd (quotient_of q)))"

definition sqrt_rat :: "rat \<Rightarrow> rat" where
  "sqrt_rat q = of_int (isqrt (fst (quotient_of q))) / of_int (isqrt (snd (quotient_of q)))"

section \<open>WIP/mnt.py: the Pell solvers\<close>

text \<open>
  \<open>floor((P + sqrt(D)) / Q)\<close> for integers \<open>P\<close>, \<open>D \<ge> 0\<close> and \<open>Q \<noteq> 0\<close>, computed
  on integers (lemma \<open>floor_surd_real\<close> below shows that it is that floor).
\<close>

definition ceil_sqrt :: "int \<Rightarrow> int" where
  "ceil_sqrt n = (if is_square n then isqrt n else isqrt n + 1)"

definition floor_surd :: "int \<Rightarrow> int \<Rightarrow> int \<Rightarrow> int" where
  "floor_surd P D Q =
     (if 0 < Q then (P + isqrt D) div Q else (- P - ceil_sqrt D) div (- Q))"

text \<open>
  The five lists of \<^verbatim>\<open>pell_solve_1\<close>. Python starts \<^verbatim>\<open>P\<close>, \<^verbatim>\<open>Q\<close> and \<^verbatim>\<open>a\<close>
  with \<^verbatim>\<open>None\<close> at index 0; the loop never reads that index (it reads \<open>i - 1 \<ge> 1\<close>), so
  the model keeps a \<open>0\<close> there.
\<close>

record cf_lists =
  cf_B :: "int list"
  cf_P :: "int list"
  cf_Q :: "int list"
  cf_a :: "int list"
  cf_G :: "int list"

definition cf_init :: "int \<Rightarrow> cf_lists" where
  "cf_init D = \<lparr>cf_B = [0, 1], cf_P = [0, 0], cf_Q = [0, 1], cf_a = [0, isqrt D],
                 cf_G = [1, isqrt D]\<rparr>"

text \<open>
  One pass of the loop body (lines 30 to 35), entered with the old \<open>i\<close>; it returns the
  new \<open>i\<close> and the extended lists. Sage divides \<open>(D - P[i]**2) / Q[i - 1]\<close> exactly, as a
  rational; the model divides with \<open>div\<close>, and lemma \<open>pell_step_exact\<close> shows that the
  division leaves no remainder on the states the loop reaches.
\<close>

definition pell_step :: "int \<Rightarrow> nat \<Rightarrow> cf_lists \<Rightarrow> error + (nat \<times> cf_lists)" where
  "pell_step D i0 s =
     (let i = i0 + 1;
          Pi = cf_a s ! (i - 1) * cf_Q s ! (i - 1) - cf_P s ! (i - 1)
      in if cf_Q s ! (i - 1) = 0 then Inl ZeroDivisionError
         else let Qi = (D - Pi * Pi) div cf_Q s ! (i - 1)
              in if Qi = 0 then Inl ZeroDivisionError
                 else let ai = floor_surd Pi D Qi
                      in Inr (i, \<lparr>cf_B = cf_B s @ [ai * cf_B s ! (i - 1) + cf_B s ! (i - 2)],
                                  cf_P = cf_P s @ [Pi],
                                  cf_Q = cf_Q s @ [Qi],
                                  cf_a = cf_a s @ [ai],
                                  cf_G = cf_G s @ [ai * cf_G s ! (i - 1) + cf_G s ! (i - 2)]\<rparr>))"

partial_function (option) pell_loop :: "int \<Rightarrow> nat \<Rightarrow> cf_lists \<Rightarrow> (error + (nat \<times> cf_lists)) option"
  where
  "pell_loop D i0 s =
     (case pell_step D i0 s of
        Inl e \<Rightarrow> Some (Inl e)
      | Inr (i, s') \<Rightarrow>
          if cf_Q s' ! i = 1 \<and> i mod 2 = 1 then Some (Inr (i, s')) else pell_loop D i s')"

declare pell_loop.simps [code]

text \<open>Lines 40 to 46: the scan of \<open>j\<close> in \<^verbatim>\<open>range(1, i)\<close>.\<close>

definition pell_1_f2 :: "int \<Rightarrow> int \<Rightarrow> cf_lists \<Rightarrow> nat \<Rightarrow> rat" where
  "pell_1_f2 D m s j =
     of_int (cf_G s ! j * cf_G s ! j - D * (cf_B s ! j * cf_B s ! j)) / of_int m"

definition pell_1_sols :: "int \<Rightarrow> int \<Rightarrow> nat \<Rightarrow> cf_lists \<Rightarrow> (rat \<times> rat) list" where
  "pell_1_sols D m i s =
     concat (map (\<lambda>j. if is_square_rat (pell_1_f2 D m s j)
                       then [(sqrt_rat (pell_1_f2 D m s j) * of_int (cf_G s ! j),
                              sqrt_rat (pell_1_f2 D m s j) * of_int (cf_B s ! j))]
                       else []) [1..<i])"

definition pell_solve_1 :: "int \<Rightarrow> int \<Rightarrow> (error + (rat \<times> rat) list) option" where
  "pell_solve_1 D m =
     (if m = 0 then Some (Inl (AssertionError []))
      else if \<not> D > m * m then Some (Inl (AssertionError []))
      else if is_square D then Some (Inl (AssertionError []))
      else (case pell_loop D 1 (cf_init D) of
              None \<Rightarrow> None
            | Some (Inl e) \<Rightarrow> Some (Inl e)
            | Some (Inr (i, s)) \<Rightarrow> Some (Inr (pell_1_sols D m i s))))"

text \<open>
  \<^verbatim>\<open>pell_solve_2\<close>. The bounds \<^verbatim>\<open>L1\<close>, \<^verbatim>\<open>L2\<close> are square roots of non-negative
  rationals; \<^verbatim>\<open>ceil(L1)\<close> and \<^verbatim>\<open>floor(L2)\<close> are taken exactly (the least \<open>k \<ge> 0\<close> with
  \<open>k\<^sup>2 \<ge> q\<close>, the greatest with \<open>k\<^sup>2 \<le> q\<close>). \<^verbatim>\<open>pell_solve_1(D, 1)[0]\<close> raises
  \<^verbatim>\<open>IndexError\<close> on an empty list.
\<close>

definition floor_sqrt_rat :: "rat \<Rightarrow> int" where
  "floor_sqrt_rat q = isqrt \<lfloor>q\<rfloor>"

definition ceil_sqrt_rat :: "rat \<Rightarrow> int" where
  "ceil_sqrt_rat q = ceil_sqrt \<lceil>q\<rceil>"

definition first_sol :: "(error + (rat \<times> rat) list) option \<Rightarrow> (error + (rat \<times> rat)) option" where
  "first_sol r =
     (case r of
        None \<Rightarrow> None
      | Some (Inl e) \<Rightarrow> Some (Inl e)
      | Some (Inr []) \<Rightarrow> Some (Inl IndexError)
      | Some (Inr (uv # _)) \<Rightarrow> Some (Inr uv))"

definition pell_2_L1 :: "int \<Rightarrow> int \<Rightarrow> int" where
  "pell_2_L1 D m = (if m > 0 then 0 else ceil_sqrt_rat (of_int (- m) / of_int D))"

definition pell_2_L2 :: "int \<Rightarrow> int \<Rightarrow> rat \<Rightarrow> rat \<Rightarrow> int" where
  "pell_2_L2 D m u v =
     (if m > 0 then floor_sqrt_rat (of_int m * (u - 1) / of_int (2 * D))
      else floor_sqrt_rat (of_int (- m) * (v + 1) / of_int (2 * D)))"

definition pell_2_at :: "int \<Rightarrow> int \<Rightarrow> int \<Rightarrow> (int \<times> int) list" where
  "pell_2_at D m y =
     (if is_square (m + D * (y * y))
      then (if \<not> ((- isqrt (m + D * (y * y)) * isqrt (m + D * (y * y)) - y * y * D) mod m = 0
                  \<and> (2 * y * isqrt (m + D * (y * y))) mod m = 0)
            then [(isqrt (m + D * (y * y)), y), (- isqrt (m + D * (y * y)), y)]
            else [(isqrt (m + D * (y * y)), y)])
      else [])"

definition pell_solve_2 :: "int \<Rightarrow> int \<Rightarrow> (error + (int \<times> int) list) option" where
  "pell_solve_2 D m =
     (if m = 0 then Some (Inl (AssertionError []))
      else if \<not> D \<le> m * m then Some (Inl (AssertionError []))
      else if is_square D then Some (Inl (AssertionError []))
      else (case first_sol (pell_solve_1 D 1) of
              None \<Rightarrow> None
            | Some (Inl e) \<Rightarrow> Some (Inl e)
            | Some (Inr (u, v)) \<Rightarrow>
                Some (Inr (concat (map (pell_2_at D m) [pell_2_L1 D m..pell_2_L2 D m u v])))))"

section \<open>WIP/mnt.py: the MNT generator\<close>



text \<open>
  \<^verbatim>\<open>2**k\<close> for a Python integer \<open>k\<close> (a float below \<open>1\<close> when \<open>k\<close> is negative);
  \<^verbatim>\<open>ceil(N / 2)\<close>; \<^verbatim>\<open>int(x)\<close> of a rational (towards zero); and the test
  \<^verbatim>\<open>(N - 3) / 2 <= log2(l) < (N - 2) / 2\<close> for \<open>l > 0\<close>, read on the reals:
  \<open>2\<^sup>N\<^sup>-\<^sup>3 \<le> l\<^sup>2 < 2\<^sup>N\<^sup>-\<^sup>2\<close>. \<^verbatim>\<open>log2\<close> raises \<^verbatim>\<open>ValueError\<close> when \<open>l \<le> 0\<close>.
\<close>

definition pow2 :: "int \<Rightarrow> rat" where
  "pow2 k = (if 0 \<le> k then 2 ^ nat k else 1 / 2 ^ nat (- k))"



















section \<open>utils.py: the embedding degree test\<close>

text \<open>
  A Sage \<^verbatim>\<open>EllipticCurve(GF(p), [a4, a6])\<close>: the curve \<open>y\<^sup>2 = x\<^sup>3 + a4 x + a6\<close> over the
  field of \<open>p\<close> elements. \<^verbatim>\<open>E.base_field().order()\<close> is \<open>p\<close>; \<^verbatim>\<open>E.order()\<close> is the
  number of points of the curve: the affine solutions and the point at infinity.
\<close>

record curve =
  field_p :: int
  coeff_a4 :: int
  coeff_a6 :: int

definition on_curve :: "curve \<Rightarrow> int \<Rightarrow> int \<Rightarrow> bool" where
  "on_curve E x y =
     ((y * y - (x * x * x + coeff_a4 E * x + coeff_a6 E)) mod field_p E = 0)"

definition curve_points :: "curve \<Rightarrow> (int \<times> int) list" where
  "curve_points E =
     concat (map (\<lambda>x. map (\<lambda>y. (x, y)) (filter (on_curve E x) [0..field_p E - 1]))
                 [0..field_p E - 1])"

definition curve_order :: "curve \<Rightarrow> int" where
  "curve_order E = 1 + int (length (curve_points E))"

definition base_field_order :: "curve \<Rightarrow> int" where
  "base_field_order E = field_p E"

definition is_embedding_degree :: "curve \<Rightarrow> nat \<Rightarrow> bool" where
  "is_embedding_degree E k = ((base_field_order E ^ k - 1) mod curve_order E = 0)"

section \<open>Primality, the Kronecker symbol and fundamental discriminants\<close>

text \<open>
  Sage's \<^verbatim>\<open>is_prime\<close> on integers, by trial division; \<^verbatim>\<open>kronecker(a, n)\<close>, the
  Kronecker symbol, by its definition: the product of the symbols of \<open>a\<close> over the unit
  and the prime factors of \<open>n\<close> (the Legendre symbol for an odd prime, the symbol for 2
  from \<open>a mod 8\<close>), with \<open>(a / 0) = 1\<close> exactly for \<open>a = \<plusminus>1\<close>.
\<close>

definition is_prime :: "int \<Rightarrow> bool" where
  "is_prime n = (1 < n \<and> list_all (\<lambda>d. n mod d \<noteq> 0) [2..n - 1])"

definition legendre :: "int \<Rightarrow> int \<Rightarrow> int" where
  "legendre a p =
     (if a mod p = 0 then 0 else if list_ex (\<lambda>x. (x * x - a) mod p = 0) [1..p - 1] then 1 else - 1)"

definition kronecker_two :: "int \<Rightarrow> int" where
  "kronecker_two a =
     (if a mod 2 = 0 then 0 else if a mod 8 = 1 \<or> a mod 8 = 7 then 1 else - 1)"

definition kronecker_prime :: "int \<Rightarrow> int \<Rightarrow> int" where
  "kronecker_prime a p = (if p = 2 then kronecker_two a else legendre a p)"

function kronecker_pos :: "int \<Rightarrow> int \<Rightarrow> int \<Rightarrow> int" where
  "kronecker_pos a n d =
     (if n \<le> 1 \<or> d < 2 then 1
      else if n < d * d then kronecker_prime a n
      else if n mod d = 0 then kronecker_prime a d * kronecker_pos a (n div d) d
      else kronecker_pos a n (d + 1))"
  by pat_completeness auto
termination
proof (relation "measures [\<lambda>(a, n, d). nat n, \<lambda>(a, n, d). nat (n - d)]", goal_cases)
  case 1
  show ?case by simp
next
  case (2 a n d)
  then have "2 \<le> d" "2 \<le> n" by simp_all
  then have "n div d < n" by (simp add: int_div_less_self)
  with \<open>2 \<le> n\<close> show ?case by simp
next
  case (3 a n d)
  then have d: "2 \<le> d" and dd: "d * d \<le> n" by simp_all
  have "d * 2 \<le> d * d" using d by (intro mult_left_mono) simp_all
  with d dd have "d < n" by linarith
  then show ?case by simp
qed

declare kronecker_pos.simps [simp del]

definition kronecker :: "int \<Rightarrow> int \<Rightarrow> int" where
  "kronecker a n =
     (if n = 0 then (if \<bar>a\<bar> = 1 then 1 else 0)
      else (if n < 0 \<and> a < 0 then - 1 else 1) * kronecker_pos a \<bar>n\<bar> 2)"

text \<open>
  \<^verbatim>\<open>Integer.squarefree_part\<close>: \<open>D\<close> divided by its largest square divisor (\<open>0\<close> for \<open>0\<close>);
  \<^verbatim>\<open>fundamental_discriminant\<close>: the squarefree part \<open>s\<close> when \<open>s mod 4 = 1\<close>, else \<open>4 s\<close>.
\<close>

definition squarefree_part :: "int \<Rightarrow> int" where
  "squarefree_part D =
     (if D = 0 then 0
      else D div (last (filter (\<lambda>f. D mod (f * f) = 0) [1..isqrt \<bar>D\<bar>])
                  * last (filter (\<lambda>f. D mod (f * f) = 0) [1..isqrt \<bar>D\<bar>])))"

definition fundamental_discriminant :: "int \<Rightarrow> int" where
  "fundamental_discriminant D =
     (if squarefree_part D mod 4 = 1 then squarefree_part D else 4 * squarefree_part D)"

section \<open>The discriminant searches\<close>

text \<open>
  Both searches draw \<^verbatim>\<open>int(random() * 1000)\<close>, a number \<open>k\<close> in \<open>0..999\<close>, and take
  \<open>D = -(k mod r)\<close>. The draws are an input of the model, in the order the code consumes
  them; \<open>None\<close> is a run that is still in its \<^verbatim>\<open>while\<close> loop when the draws end.
\<close>

definition candidate :: "int \<Rightarrow> int \<Rightarrow> int" where
  "candidate r k = - (k mod \<bar>r\<bar>)"

fun sample_until :: "int \<Rightarrow> int \<Rightarrow> int list \<Rightarrow> int option" where
  "sample_until r D [] = (if kronecker D r = 1 then Some D else None)"
| "sample_until r D (k # ks) =
     (if kronecker D r = 1 then Some D else sample_until r (candidate r k) ks)"

text \<open>WIP/complex\_multiplication.py, lines 9 to 18.\<close>

definition choose_random_fundamental_discriminant :: "int \<Rightarrow> int list \<Rightarrow> int option" where
  "choose_random_fundamental_discriminant r ks =
     (case ks of
        [] \<Rightarrow> None
      | k # ks' \<Rightarrow>
          (case sample_until r (candidate r k) ks' of
             None \<Rightarrow> None
           | Some D \<Rightarrow>
               if \<not> kronecker (fundamental_discriminant D) r = 1 then Some 0
               else Some (fundamental_discriminant D)))"

text \<open>cocks\_pinch.py, lines 18 to 24: the loop starts from \<open>D = 0\<close>, and the re-check is
  an \<^verbatim>\<open>assert\<close>.\<close>

definition find_fundamental_discriminant :: "int \<Rightarrow> int list \<Rightarrow> (error + int) option" where
  "find_fundamental_discriminant n ks =
     (case sample_until n 0 ks of
        None \<Rightarrow> None
      | Some D \<Rightarrow>
          if \<not> kronecker (fundamental_discriminant D) n = 1 then Some (Inl (AssertionError []))
          else Some (Inr (fundamental_discriminant D)))"

section \<open>cocks\_pinch.py: an element of order \<open>B\<close>\<close>

text \<open>
  The inner function \<^verbatim>\<open>order(h, k, p)\<close>. \<^verbatim>\<open>g\<close> starts as the integer \<open>h\<close> and is an
  element of \<open>Z/pZ\<close> after the first pass, so the first comparison with \<open>1\<close> is on
  integers and the later ones are modulo \<open>p\<close>; the flag of the state says which.
\<close>

definition is_one :: "bool \<Rightarrow> int \<Rightarrow> int \<Rightarrow> bool" where
  "is_one raw g p = (if raw then g = 1 else g = 1 mod p)"

definition order_pass :: "int \<Rightarrow> int \<Rightarrow> bool \<times> int \<times> bool \<Rightarrow> bool \<times> int \<times> bool" where
  "order_pass h p s =
     (case s of (b, g, raw) \<Rightarrow> (b \<and> \<not> is_one raw g p, (g * h) mod p, False))"

definition order :: "int \<Rightarrow> int \<Rightarrow> int \<Rightarrow> bool" where
  "order h k p =
     (case (order_pass h p ^^ nat (k - 1)) (True, h, True) of
        (b, g, raw) \<Rightarrow> b \<and> is_one raw g p)"

definition power_mod :: "int \<Rightarrow> int \<Rightarrow> int \<Rightarrow> int" where
  "power_mod a e n = (a ^ nat e) mod n"

text \<open>
  The \<^verbatim>\<open>while not order(h, B, n)\<close> loop; \<open>rs\<close> are the values of \<^verbatim>\<open>randint(2, n - 1)\<close>,
  which raises \<^verbatim>\<open>ValueError\<close> on an empty range.
\<close>

fun find_loop :: "int \<Rightarrow> int \<Rightarrow> int \<Rightarrow> int list \<Rightarrow> (error + int) option" where
  "find_loop B n h [] = (if order h B n then Some (Inr h) else None)"
| "find_loop B n h (r # rs) =
     (if order h B n then Some (Inr h)
      else if n - 1 < 2 then Some (Inl ValueError)
      else find_loop B n (power_mod r ((n - 1) div B) n) rs)"

definition find_element_of_order :: "int \<Rightarrow> int \<Rightarrow> int list \<Rightarrow> (error + int) option" where
  "find_element_of_order B n rs =
     (if B = 0 then Some (Inl ZeroDivisionError)
      else if \<not> n mod B = 1 then Some (Inl (AssertionError []))
      else find_loop B n 0 rs)"

section \<open>WIP/complex\_multiplication.py: the CM generator\<close>

text \<open>
  Arithmetic of \<^verbatim>\<open>GF(p)\<close> on the representatives \<open>0..p - 1\<close>. The inverse is found by
  search; \<^verbatim>\<open>a / b\<close> is \<open>a\<close> times the inverse of \<open>b\<close>. The only division of the
  generator sits in the branch where \<open>1728 - j0\<close> is not zero.
\<close>

definition gf_inv :: "int \<Rightarrow> int \<Rightarrow> int" where
  "gf_inv p b = (case find (\<lambda>x. (b * x) mod p = 1) [0..p - 1] of Some x \<Rightarrow> x | None \<Rightarrow> 0)"

definition gf_div :: "int \<Rightarrow> int \<Rightarrow> int \<Rightarrow> int" where
  "gf_div p a b = (a * gf_inv p b) mod p"

text \<open>
  \<^verbatim>\<open>EllipticCurve(GF(p), [a4, a6])\<close> raises \<^verbatim>\<open>ArithmeticError\<close> when the discriminant
  \<open>-16 (4 a4\<^sup>3 + 27 a6\<^sup>2)\<close> vanishes in the field.
\<close>

definition elliptic_curve :: "int \<Rightarrow> int \<Rightarrow> int \<Rightarrow> error + curve" where
  "elliptic_curve p a4 a6 =
     (if (- 16 * (4 * (a4 * a4 * a4) + 27 * (a6 * a6))) mod p = 0 then Inl ArithmeticError
      else Inr \<lparr>field_p = p, coeff_a4 = a4 mod p, coeff_a6 = a6 mod p\<rparr>)"

text \<open>
  Lines 79 to 86 (and the same lines of cocks\_pinch.py): the curve with \<open>j\<close>-invariant
  \<open>j0\<close> and twist parameter \<open>c\<close>. \<open>j0\<close> and \<open>c\<close> are elements of \<^verbatim>\<open>GF(p)\<close>, so the
  comparisons with \<open>0\<close> and \<open>1728\<close> are modulo \<open>p\<close>.
\<close>

definition curve_from_j :: "int \<Rightarrow> int \<Rightarrow> int \<Rightarrow> error + curve" where
  "curve_from_j p j0 c =
     (if j0 mod p = 0 then elliptic_curve p 0 c
      else if j0 mod p = 1728 mod p then elliptic_curve p c 0
      else elliptic_curve p (gf_div p (3 * (c * c) * j0) (1728 - j0))
                            (gf_div p (2 * (c * c * c) * j0) (1728 - j0)))"





section \<open>WIP/complex\_multiplication.py: Cornacchia\<close>

text \<open>
  The module is a Python file, so \<^verbatim>\<open>^\<close> in it is Python's exclusive or, which binds
  weaker than \<^verbatim>\<open>-\<close>. Line 25, \<^verbatim>\<open>f = x ^ 2 - D\<close>, applies it to the polynomial
  \<^verbatim>\<open>x\<close> and the field element \<^verbatim>\<open>2 - D\<close>; Sage's elements answer \<^verbatim>\<open>^\<close> with
  \<^verbatim>\<open>RuntimeError\<close> (``use ** for exponentiation''). So \<^verbatim>\<open>find_sqrt\<close> raises on every
  input, and \<^verbatim>\<open>cornacchia\<close> raises whenever it passes its Kronecker test. Line 40,
  \<^verbatim>\<open>bound = p ^ (.5)\<close>, would raise \<^verbatim>\<open>TypeError\<close> next.
\<close>

definition find_sqrt :: "int \<Rightarrow> int \<Rightarrow> error + int" where
  "find_sqrt p D = Inl RuntimeError"

definition cornacchia :: "int \<Rightarrow> int \<Rightarrow> error + (int \<times> int) option" where
  "cornacchia p d =
     (if kronecker (- d) p = 1
      then (case find_sqrt p (- d) of Inl e \<Rightarrow> Inl e | Inr t \<Rightarrow> Inl TypeError)
      else Inr None)"

text \<open>
  The same lines as the docstring's Sage session reads them, with \<^verbatim>\<open>^\<close> as a power
  (this is what the code is written to do). \<^verbatim>\<open>f.roots()\<close> lists the roots of
  \<open>x\<^sup>2 - D\<close> from its sorted linear factors \<open>x + a\<close>, the larger root first. The loop
  of lines 42 to 45 divides before it tests; \<^verbatim>\<open>t < p ^ .5\<close> is \<open>t\<^sup>2 < p\<close> for \<open>t \<ge> 0\<close>,
  and \<^verbatim>\<open>q ^ .5 in ZZ\<close> holds when \<open>q\<close> is the square of an integer.
\<close>

definition find_sqrt_power :: "int \<Rightarrow> int \<Rightarrow> error + int" where
  "find_sqrt_power p D =
     (case find (\<lambda>x. (x * x - D) mod p = 0) (rev [0..p - 1]) of
        None \<Rightarrow> Inl IndexError
      | Some x \<Rightarrow> Inr x)"

function euclid_until :: "int \<Rightarrow> int \<Rightarrow> int \<Rightarrow> error + int" where
  "euclid_until p n t =
     (if t = 0 then Inl ZeroDivisionError
      else if n mod t < 0 \<or> (n mod t) * (n mod t) < p then Inr (n mod t)
      else euclid_until p t (n mod t))"
  by pat_completeness auto
termination
proof (relation "measure (\<lambda>(p, n, t). nat \<bar>t\<bar>)", goal_cases)
  case 1
  show ?case by simp
next
  case (2 p n t)
  then have "\<bar>n mod t\<bar> < \<bar>t\<bar>" by (intro abs_mod_less) simp
  then show ?case by simp
qed

declare euclid_until.simps [simp del]

definition cornacchia_power :: "int \<Rightarrow> int \<Rightarrow> error + (int \<times> int) option" where
  "cornacchia_power p d =
     (if kronecker (- d) p = 1
      then (case find_sqrt_power p (- d) of
              Inl e \<Rightarrow> Inl e
            | Inr t0 \<Rightarrow>
                (case euclid_until p p t0 of
                   Inl e \<Rightarrow> Inl e
                 | Inr t \<Rightarrow>
                     if d = 0 then Inl ZeroDivisionError
                     else if (p - t * t) mod d = 0 \<and> is_square ((p - t * t) div d)
                     then Inr (Some (t, isqrt ((p - t * t) div d)))
                     else Inr None))
      else Inr None)"

section \<open>barreto\_naehrig.py: the generator and its command line\<close>

text \<open>
  \<^verbatim>\<open>int.bit_length\<close>, the polynomial \<open>P\<close>, and the start value
  \<^verbatim>\<open>u = int(-(2**(m / 4)) / sqrt(6))\<close>: minus the greatest \<open>k\<close> with \<open>36 k\<^sup>4 \<le> 2\<^sup>m\<close>
  (the quotient is read on the reals and cut towards zero).
\<close>

function bit_length :: "int \<Rightarrow> int" where
  "bit_length n = (if n = 0 then 0 else 1 + bit_length (\<bar>n\<bar> div 2))"
  by pat_completeness auto
termination
  by (relation "measure (\<lambda>n. nat \<bar>n\<bar>)") auto

declare bit_length.simps [simp del]

definition bn_P :: "int \<Rightarrow> int" where
  "bn_P u = 36 * u ^ 4 + 36 * u ^ 3 + 24 * u ^ 2 + 6 * u + 1"

definition bn_u0 :: "int \<Rightarrow> int" where
  "bn_u0 m = - isqrt (isqrt (2 ^ nat m div 36))"

text \<open>
  The local variables of the generator that live across \<^verbatim>\<open>yield\<close>. \<^verbatim>\<open>n\<close> is unbound
  until the first scan assigns it; it is read only when \<^verbatim>\<open>found_curve\<close> is true, so
  the model starts it at \<open>0\<close>.
\<close>

record bn_state =
  bn_u :: int
  bn_p :: int
  bn_n :: int
  bn_found :: bool

definition bn_init :: "int \<Rightarrow> bn_state" where
  "bn_init m = \<lparr>bn_u = bn_u0 m, bn_p = bn_P (- bn_u0 m), bn_n = 0, bn_found = False\<rparr>"

text \<open>
  The inner loop \<^verbatim>\<open>while p.bit_length() <= p_max\<close> (lines 22 to 45). The test reads
  the \<open>p\<close> of the pass before; \<^verbatim>\<open>found_curve\<close> is set on success and never reset.
\<close>

partial_function (option) bn_scan :: "int \<Rightarrow> bn_state \<Rightarrow> bn_state option" where
  "bn_scan p_max s =
     (if bit_length (bn_p s) \<le> p_max
      then (if is_prime (bn_P (- bn_u s))
               \<and> is_prime (bn_P (- bn_u s) + 1 - (6 * (bn_u s * bn_u s) + 1))
            then Some (s\<lparr>bn_p := bn_P (- bn_u s),
                         bn_n := bn_P (- bn_u s) + 1 - (6 * (bn_u s * bn_u s) + 1),
                         bn_found := True\<rparr>)
            else if is_prime (bn_P (bn_u s))
               \<and> is_prime (bn_P (bn_u s) + 1 - (6 * (bn_u s * bn_u s) + 1))
            then Some (s\<lparr>bn_p := bn_P (bn_u s),
                         bn_n := bn_P (bn_u s) + 1 - (6 * (bn_u s * bn_u s) + 1),
                         bn_found := True\<rparr>)
            else bn_scan p_max (s\<lparr>bn_u := bn_u s + 1, bn_p := bn_P (bn_u s),
                                     bn_n := bn_P (bn_u s) + 1 - (6 * (bn_u s * bn_u s) + 1)\<rparr>))
      else Some s)"

declare bn_scan.simps [code]

text \<open>
  One resumption of the generator, up to its next \<^verbatim>\<open>yield\<close>. In a generator
  \<^verbatim>\<open>return None\<close> ends the iteration: nothing is yielded. Lines 51 to 71 (the search
  for \<open>b\<close>, the base point and the embedding degree assertion) belong to Sage's fields
  and curves and are the parameter \<open>build\<close>: from \<open>p\<close> and \<open>n\<close> it gives the curve
  with its base point, an exception, or \<open>None\<close> when the search for \<open>b\<close> never ends.
  What is yielded is always a tuple, \<open>Some\<close> here.
\<close>

datatype 'c gen_step = Yield "(int \<times> 'c \<times> int) option" bn_state | Stop | Raise error

definition bn_next ::
  "(int \<Rightarrow> int \<Rightarrow> (error + 'c) option) \<Rightarrow> int \<Rightarrow> bn_state \<Rightarrow> 'c gen_step option" where
  "bn_next build p_max s =
     (case bn_scan p_max s of
        None \<Rightarrow> None
      | Some s' \<Rightarrow>
          if \<not> bn_found s' then Some Stop
          else (case build (bn_p s') (bn_n s') of
                  None \<Rightarrow> None
                | Some (Inl e) \<Rightarrow> Some (Raise e)
                | Some (Inr c) \<Rightarrow>
                    Some (Yield (Some (bn_p s', c, bn_n s')) (s'\<lparr>bn_u := bn_u s' + 1\<rparr>))))"

text \<open>
  The \<^verbatim>\<open>__main__\<close> block (lines 89 to 99): what it prints, its exit status, and the
  exception that ended it, if any (an uncaught exception gives status 1).
\<close>

datatype 'c printed = PrintCurve 'c | PrintNoCurve

type_synonym 'c run = "'c printed list \<times> int \<times> error option"

partial_function (option) bn_main_loop ::
  "(int \<Rightarrow> int \<Rightarrow> (error + 'c) option) \<Rightarrow> int \<Rightarrow> bn_state \<Rightarrow> int \<Rightarrow> 'c printed list
     \<Rightarrow> 'c run option" where
  "bn_main_loop build p_max s remaining out =
     (case bn_next build p_max s of
        None \<Rightarrow> None
      | Some Stop \<Rightarrow> Some (out, 0, None)
      | Some (Raise e) \<Rightarrow> Some (out, 1, Some e)
      | Some (Yield None s') \<Rightarrow> Some (out @ [PrintNoCurve], 1, None)
      | Some (Yield (Some (p, E, n)) s') \<Rightarrow>
          if remaining - 1 = 0 then Some (out @ [PrintCurve E], 0, None)
          else bn_main_loop build p_max s' (remaining - 1) (out @ [PrintCurve E]))"

declare bn_main_loop.simps [code]

definition bn_main ::
  "(int \<Rightarrow> int \<Rightarrow> (error + 'c) option) \<Rightarrow> int \<Rightarrow> int \<Rightarrow> int \<Rightarrow> 'c run option" where
  "bn_main build num_curves m p_max = bn_main_loop build p_max (bn_init m) num_curves []"

section \<open>Results on the Pell solvers\<close>

text \<open>
  C5: the list returned by \<^verbatim>\<open>pell_solve_1(2, 1)\<close> includes \<open>(3, 2)\<close>, the least
  solution of \<open>x\<^sup>2 - 2 y\<^sup>2 = 1\<close>. The run leaves the loop at \<open>i = 3\<close> and returns exactly
  that pair.
\<close>

theorem pell_solve_1_two_one:
  "pell_solve_1 2 1 = Some (Inr [(3, 2)]) \<and> (3::rat) * 3 - 2 * (2 * 2) = 1"
  by code_simp

text \<open>
  C1 (the code departs from it): every pair returned by the two solvers should satisfy
  \<open>x\<^sup>2 - D y\<^sup>2 = m\<close>. Line 42 divides \<open>G[j]\<^sup>2 - D B[j]\<^sup>2\<close> by \<open>m\<close>, where the algorithm of
  the docstring divides \<open>m\<close> by it. For \<open>D = 13\<close>, \<open>m = 1\<close> the convergent \<open>11 / 3\<close> has
  \<open>11\<^sup>2 - 13 \<sqdot> 3\<^sup>2 = 4\<close>, so \<open>f = 2\<close> and the returned pair \<open>(22, 6)\<close> has
  \<open>22\<^sup>2 - 13 \<sqdot> 6\<^sup>2 = 16\<close>.
\<close>

theorem pell_solve_1_thirteen_one:
  "pell_solve_1 13 1 = Some (Inr [(22, 6), (238, 66), (649, 180)])
   \<and> (22::rat) * 22 - 13 * (6 * 6) = 16
   \<and> (238::rat) * 238 - 13 * (66 * 66) = 16"
  by code_simp

section \<open>Results on the embedding degree test\<close>

text \<open>
  C3 as the specification states it, refuted: the test is claimed to hold exactly when
  \<open>(p\<^sup>k - 1) mod n = 0\<close> for the prime subgroup order \<open>n\<close>. The curve \<open>y\<^sup>2 = x\<^sup>3 + 1\<close> over
  the field of 7 elements has 12 points, \<open>n = 3\<close> is a prime that divides 12, and
  \<open>(7\<^sup>1 - 1) mod 3 = 0\<close>; the test answers no, because it divides by 12.
\<close>

theorem is_embedding_degree_subgroup_counterexample:
  "curve_order \<lparr>field_p = 7, coeff_a4 = 0, coeff_a6 = 1\<rparr> = 12
   \<and> (12::int) mod 3 = 0
   \<and> (7 ^ 1 - 1) mod 3 = (0::int)
   \<and> \<not> is_embedding_degree \<lparr>field_p = 7, coeff_a4 = 0, coeff_a6 = 1\<rparr> 1"
  by code_simp

text \<open>
  C3, amended: the test holds exactly when \<open>(p\<^sup>k - 1) mod #E = 0\<close>, where \<open>#E\<close> is the
  number of points of the curve; it is the claimed test when \<open>#E\<close> is the subgroup order
  \<open>n\<close> (cofactor 1); and it looks at the given \<open>k\<close> only: once it holds for \<open>k\<close> it holds
  for every multiple of \<open>k\<close>, so it does not say that \<open>k\<close> is the least such exponent.
\<close>

theorem is_embedding_degree_curve_order:
  "(is_embedding_degree E k \<longleftrightarrow> (field_p E ^ k - 1) mod curve_order E = 0)
   \<and> (curve_order E = n \<longrightarrow> (is_embedding_degree E k \<longleftrightarrow> (field_p E ^ k - 1) mod n = 0))
   \<and> (is_embedding_degree E k \<longrightarrow> is_embedding_degree E (k * j))"
proof -
  have "is_embedding_degree E (k * j)" if "is_embedding_degree E k"
  proof -
    define N where "N = curve_order E"
    define a where "a = field_p E ^ k"
    from that have "(a - 1) mod N = 0"
      by (simp add: is_embedding_degree_def base_field_order_def N_def a_def)
    then have a1: "a mod N = 1 mod N"
      by (metis diff_add_cancel mod_add_left_eq add_0)
    have "a ^ j mod N = (a mod N) ^ j mod N"
      by (simp add: power_mod)
    also have "\<dots> = 1 ^ j mod N"
      unfolding a1 by (simp only: power_mod)
    finally have "a ^ j mod N = 1 mod N" by simp
    then have "(a ^ j - 1) mod N = 0"
      by (metis mod_diff_left_eq diff_self mod_0)
    then show ?thesis
      by (simp add: is_embedding_degree_def base_field_order_def N_def a_def power_mult)
  qed
  then show ?thesis
    by (auto simp: is_embedding_degree_def base_field_order_def)
qed

theorem is_embedding_degree_curve_order_witness:
  "is_embedding_degree \<lparr>field_p = 7, coeff_a4 = 0, coeff_a6 = 1\<rparr> 2
   \<and> curve_order \<lparr>field_p = 7, coeff_a4 = 0, coeff_a6 = 1\<rparr> = 12
   \<and> (7 ^ 2 - 1) mod 12 = (0::int)
   \<and> is_embedding_degree \<lparr>field_p = 7, coeff_a4 = 0, coeff_a6 = 1\<rparr> (2 * 3)"
proof -
  have o: "curve_order \<lparr>field_p = 7, coeff_a4 = 0, coeff_a6 = 1\<rparr> = 12"
    by code_simp
  have e: "is_embedding_degree \<lparr>field_p = 7, coeff_a4 = 0, coeff_a6 = 1\<rparr> 2"
    by code_simp
  from is_embedding_degree_curve_order
    [of "\<lparr>field_p = 7, coeff_a4 = 0, coeff_a6 = 1\<rparr>" 2 12 3] o e
  show ?thesis by simp
qed

section \<open>Results on the MNT generator\<close>


lemma pow2_pos: "0 < pow2 k"
  by (simp add: pow2_def)














section \<open>Results on the element of order \<open>B\<close>\<close>

text \<open>
  After \<open>t + 1\<close> passes of the loop of \<^verbatim>\<open>order\<close>, the flag says that none of
  \<open>h, h\<^sup>2, \<dots>, h\<^bsup>t+1\<^esup>\<close> is \<open>1\<close> and \<open>g\<close> is \<open>h\<^bsup>t+2\<^esup> mod p\<close>.
\<close>

lemma all_upto_Suc:
  "(\<forall>j. 2 \<le> j \<and> j \<le> Suc (Suc t) \<longrightarrow> P j) \<longleftrightarrow>
     (\<forall>j. 2 \<le> j \<and> j \<le> Suc t \<longrightarrow> P j) \<and> P (Suc (Suc t))"
proof -
  have "(2 \<le> j \<and> j \<le> Suc (Suc t)) = ((2 \<le> j \<and> j \<le> Suc t) \<or> j = Suc (Suc t))" for j
    by arith
  then show ?thesis by auto
qed

lemma all_from_one:
  "(\<forall>j. 1 \<le> j \<and> j < Suc (Suc t) \<longrightarrow> P j) \<longleftrightarrow>
     P 1 \<and> (\<forall>j. 2 \<le> j \<and> j \<le> Suc t \<longrightarrow> P j)"
proof -
  have "(1 \<le> j \<and> j < Suc (Suc t)) = (j = 1 \<or> (2 \<le> j \<and> j \<le> Suc t))" for j
    by arith
  then show ?thesis by auto
qed

lemma order_pass_iter:
  "(order_pass h p ^^ Suc t) (True, h, True) =
     (h \<noteq> 1 \<and> (\<forall>j. 2 \<le> j \<and> j \<le> Suc t \<longrightarrow> h ^ j mod p \<noteq> 1 mod p), h ^ (Suc (Suc t)) mod p, False)"
proof (induction t)
  case 0
  have "(2 \<le> j \<and> j \<le> Suc 0) = False" for j :: nat by arith
  then show ?case
    by (simp add: order_pass_def is_one_def)
next
  case (Suc t)
  define P where "P = (\<lambda>j. h ^ j mod p \<noteq> 1 mod p)"
  define g where "g = h ^ Suc (Suc t) mod p"
  have IH: "(order_pass h p ^^ Suc t) (True, h, True) =
      (h \<noteq> 1 \<and> (\<forall>j. 2 \<le> j \<and> j \<le> Suc t \<longrightarrow> P j), g, False)"
    unfolding P_def g_def by (rule Suc.IH)
  have "(g * h) mod p = (h ^ Suc (Suc t) * h) mod p"
    unfolding g_def by (rule mod_mult_left_eq)
  also have "h ^ Suc (Suc t) * h = h ^ Suc (Suc (Suc t))"
    by (simp only: power_Suc mult.commute)
  finally have g': "(g * h) mod p = h ^ Suc (Suc (Suc t)) mod p" .
  have Pg: "P (Suc (Suc t)) \<longleftrightarrow> g \<noteq> 1 mod p"
    unfolding P_def g_def by (simp only: mod_mod_trivial)
  have "(order_pass h p ^^ Suc (Suc t)) (True, h, True) =
     order_pass h p ((order_pass h p ^^ Suc t) (True, h, True))"
    by simp
  also have "\<dots> = ((h \<noteq> 1 \<and> (\<forall>j. 2 \<le> j \<and> j \<le> Suc t \<longrightarrow> P j)) \<and> g \<noteq> 1 mod p,
       (g * h) mod p, False)"
    unfolding IH by (simp add: order_pass_def is_one_def)
  also have "\<dots> = (h \<noteq> 1 \<and> (\<forall>j. 2 \<le> j \<and> j \<le> Suc (Suc t) \<longrightarrow> P j),
       h ^ (Suc (Suc (Suc t))) mod p, False)"
    unfolding g' all_upto_Suc [of t P] Pg by (simp only: conj_assoc)
  finally show ?case unfolding P_def .
qed

lemma order_iff:
  assumes p: "1 < p" and h: "0 \<le> h" "h < p" and k: "1 \<le> k"
  shows "order h k p \<longleftrightarrow>
     (\<forall>j. 1 \<le> j \<and> j < nat k \<longrightarrow> h ^ j mod p \<noteq> 1) \<and> h ^ nat k mod p = 1"
proof (cases "k = 1")
  case True
  with p h show ?thesis
    by (simp add: order_def is_one_def)
next
  case False
  define t where "t = nat (k - 2)"
  from False k have t: "nat (k - 1) = Suc t" "nat k = Suc (Suc t)"
    unfolding t_def by linarith+
  have one: "1 mod p = 1" using p by simp
  have h1: "h \<noteq> 1 \<longleftrightarrow> h ^ 1 mod p \<noteq> 1" using h by simp
  show ?thesis
    unfolding order_def t order_pass_iter all_from_one one is_one_def prod.case
    using h1 by auto
qed

lemma power_mod_range: "1 < n \<Longrightarrow> 0 \<le> power_mod a e n \<and> power_mod a e n < n"
  by (simp add: power_mod_def)

lemma find_loop_sound:
  assumes n: "1 < n"
  shows "0 \<le> h \<Longrightarrow> h < n \<Longrightarrow> find_loop B n h rs = Some (Inr h') \<Longrightarrow>
     order h' B n \<and> 0 \<le> h' \<and> h' < n"
proof (induction rs arbitrary: h)
  case Nil
  then show ?case by (simp split: if_splits)
next
  case (Cons r rs)
  show ?case
  proof (cases "order h B n")
    case True
    with Cons.prems show ?thesis by simp
  next
    case False
    with Cons.prems have
      "find_loop B n (power_mod r ((n - 1) div B) n) rs = Some (Inr h')"
      by (simp split: if_splits)
    with Cons.IH [of "power_mod r ((n - 1) div B) n"] power_mod_range [OF n]
    show ?thesis by blast
  qed
qed

lemma find_loop_complete:
  assumes n: "3 \<le> n"
    and ex: "\<exists>r\<in>set rs. order (power_mod r ((n - 1) div B) n) B n"
  shows "\<exists>h'. find_loop B n h rs = Some (Inr h')"
  using ex
proof (induction rs arbitrary: h)
  case Nil
  then show ?case by simp
next
  case (Cons r rs)
  show ?case
  proof (cases "order h B n")
    case True
    then show ?thesis by simp
  next
    case nh: False
    show ?thesis
    proof (cases "order (power_mod r ((n - 1) div B) n) B n")
      case True
      then have "find_loop B n (power_mod r ((n - 1) div B) n) rs
          = Some (Inr (power_mod r ((n - 1) div B) n))"
        by (cases rs) simp_all
      with nh n show ?thesis by simp
    next
      case False
      with Cons.prems have "\<exists>r\<in>set rs. order (power_mod r ((n - 1) div B) n) B n"
        by simp
      from Cons.IH [OF this, of "power_mod r ((n - 1) div B) n"] nh n
      show ?thesis by simp
    qed
  qed
qed

lemma is_prime_gt_1: "is_prime n \<Longrightarrow> 1 < n"
  by (simp add: is_prime_def)

text \<open>
  C10: for prime \<open>n\<close> and \<open>B > 1\<close> with \<open>n mod B = 1\<close>, the integer that
  \<^verbatim>\<open>find_element_of_order(B, n)\<close> returns has multiplicative order exactly \<open>B\<close>
  modulo \<open>n\<close>. The loop draws at random, so the call returns for the draws that hold a
  value whose \<open>(n - 1) / B\<close>-th power passes the test of \<^verbatim>\<open>order\<close>; the first
  conjunct is about every returned value, the second says that such a draw makes the call
  return.
\<close>

theorem find_element_of_order_exact:
  assumes pr: "is_prime n" and B: "1 < B" and nB: "n mod B = 1"
  shows "(find_element_of_order B n rs = Some (Inr h) \<longrightarrow>
            h ^ nat B mod n = 1 \<and> (\<forall>j. 1 \<le> j \<and> j < nat B \<longrightarrow> h ^ j mod n \<noteq> 1))
       \<and> ((\<exists>r\<in>set rs. order (power_mod r ((n - 1) div B) n) B n) \<longrightarrow>
            (\<exists>h'. find_element_of_order B n rs = Some (Inr h')))"
proof -
  have n1: "1 < n" using pr by (rule is_prime_gt_1)
  have n3: "3 \<le> n"
  proof (rule ccontr)
    assume "\<not> 3 \<le> n"
    with n1 have n2: "n = 2" by simp
    show False
    proof (cases "B = 2")
      case True
      with nB n2 show False by simp
    next
      case False
      with B have "2 < B" by simp
      then have "(2::int) mod B = 2" by simp
      with nB n2 show False by simp
    qed
  qed
  have def: "find_element_of_order B n rs = find_loop B n 0 rs"
    using B nB by (simp add: find_element_of_order_def)
  have sound: "h ^ nat B mod n = 1 \<and> (\<forall>j. 1 \<le> j \<and> j < nat B \<longrightarrow> h ^ j mod n \<noteq> 1)"
    if "find_element_of_order B n rs = Some (Inr h)"
  proof -
    from that def have "find_loop B n 0 rs = Some (Inr h)" by simp
    from find_loop_sound [OF n1 _ _ this] n1
    have "order h B n" "0 \<le> h" "h < n" by simp_all
    with order_iff [OF n1, of h B] B show ?thesis by simp
  qed
  have complete: "\<exists>h'. find_element_of_order B n rs = Some (Inr h')"
    if "\<exists>r\<in>set rs. order (power_mod r ((n - 1) div B) n) B n"
    unfolding def using n3 that by (rule find_loop_complete)
  from sound complete show ?thesis by blast
qed

theorem find_element_of_order_exact_witness:
  "is_prime 7 \<and> (1::int) < 3 \<and> (7::int) mod 3 = 1
   \<and> find_element_of_order 3 7 [6, 3] = Some (Inr 2)
   \<and> (2::int) ^ nat 3 mod 7 = 1
   \<and> (2::int) ^ 1 mod 7 \<noteq> 1 \<and> (2::int) ^ 2 mod 7 \<noteq> 1"
proof -
  have p: "is_prime 7" by code_simp
  have f: "find_element_of_order 3 7 [6, 3] = Some (Inr 2)" by code_simp
  from find_element_of_order_exact [OF p, of 3 "[6, 3]" 2] f p
  show ?thesis by simp
qed

section \<open>Results on the discriminant searches\<close>

lemma sample_until_sound:
  "sample_until r D ks = Some D' \<Longrightarrow> kronecker D' r = 1"
  by (induction ks arbitrary: D) (simp_all split: if_splits)

lemma sample_until_complete:
  "kronecker D r = 1 \<or> (\<exists>k\<in>set ks. kronecker (candidate r k) r = 1) \<Longrightarrow>
     \<exists>D'. sample_until r D ks = Some D'"
proof (induction ks arbitrary: D)
  case Nil
  then show ?case by simp
next
  case (Cons k ks)
  show ?case
  proof (cases "kronecker D r = 1")
    case True
    then show ?thesis by simp
  next
    case False
    with Cons.prems have
      "kronecker (candidate r k) r = 1 \<or> (\<exists>k\<in>set ks. kronecker (candidate r k) r = 1)"
      by auto
    from Cons.IH [OF this] False show ?thesis by simp
  qed
qed

text \<open>
  C7 as the specification states it, refuted: both searches are claimed to return the
  sentinel \<open>0\<close>, and not to raise, when the fundamental reduction breaks the residue
  condition. For the modulus \<open>2\<close> and the draw \<open>1\<close> the candidate is \<open>-1\<close> with
  \<open>(-1 / 2) = 1\<close>; its fundamental discriminant is \<open>-4\<close> with \<open>(-4 / 2) = 0\<close>. The search
  of the CM generator returns \<open>0\<close>; the search of Cocks-Pinch fails its \<^verbatim>\<open>assert\<close>.
\<close>

theorem discriminant_search_assert_counterexample:
  "kronecker (candidate 2 1) 2 = 1
   \<and> fundamental_discriminant (candidate 2 1) = - 4
   \<and> kronecker (- 4) 2 = 0
   \<and> choose_random_fundamental_discriminant 2 [1] = Some 0
   \<and> find_fundamental_discriminant 2 [1] = Some (Inl (AssertionError []))"
  by code_simp

text \<open>
  C7, amended: each search draws candidates until \<open>(D / r) = 1\<close>, reduces \<open>D\<close> to its
  fundamental discriminant and checks the residue condition again. When the reduction
  keeps the condition, both return the fundamental discriminant. When it breaks it,
  \<^verbatim>\<open>choose_random_fundamental_discriminant\<close> returns \<open>0\<close> and
  \<^verbatim>\<open>find_fundamental_discriminant\<close> raises \<^verbatim>\<open>AssertionError\<close>. Draws that hold a
  candidate with \<open>(D / r) = 1\<close> make both calls leave their loop.
\<close>

theorem discriminant_search_results:
  "(choose_random_fundamental_discriminant r ks = Some v \<longrightarrow>
      (\<exists>D. kronecker D r = 1
         \<and> v = (if kronecker (fundamental_discriminant D) r = 1
                then fundamental_discriminant D else 0)))
   \<and> (find_fundamental_discriminant r ks = Some res \<longrightarrow>
      (\<exists>D. kronecker D r = 1
         \<and> res = (if kronecker (fundamental_discriminant D) r = 1
                  then Inr (fundamental_discriminant D) else Inl (AssertionError []))))
   \<and> ((\<exists>k\<in>set ks. kronecker (candidate r k) r = 1) \<longrightarrow>
        (\<exists>v'. choose_random_fundamental_discriminant r ks = Some v')
        \<and> (\<exists>res'. find_fundamental_discriminant r ks = Some res'))"
proof (intro conjI impI)
  assume "choose_random_fundamental_discriminant r ks = Some v"
  then show "\<exists>D. kronecker D r = 1
         \<and> v = (if kronecker (fundamental_discriminant D) r = 1
                then fundamental_discriminant D else 0)"
    by (auto simp: choose_random_fundamental_discriminant_def
        split: list.splits option.splits if_splits dest: sample_until_sound)
next
  assume "find_fundamental_discriminant r ks = Some res"
  then show "\<exists>D. kronecker D r = 1
         \<and> res = (if kronecker (fundamental_discriminant D) r = 1
                  then Inr (fundamental_discriminant D) else Inl (AssertionError []))"
    by (auto simp: find_fundamental_discriminant_def
        split: option.splits if_splits dest: sample_until_sound)
next
  assume ex: "\<exists>k\<in>set ks. kronecker (candidate r k) r = 1"
  then obtain k ks' where ks: "ks = k # ks'" by (cases ks) auto
  with ex have "kronecker (candidate r k) r = 1
      \<or> (\<exists>k\<in>set ks'. kronecker (candidate r k) r = 1)" by auto
  from sample_until_complete [OF this]
  show "\<exists>v'. choose_random_fundamental_discriminant r ks = Some v'"
    by (auto simp: choose_random_fundamental_discriminant_def ks)
next
  assume ex: "\<exists>k\<in>set ks. kronecker (candidate r k) r = 1"
  then have "kronecker 0 r = 1 \<or> (\<exists>k\<in>set ks. kronecker (candidate r k) r = 1)" by simp
  from sample_until_complete [OF this]
  show "\<exists>res'. find_fundamental_discriminant r ks = Some res'"
    by (auto simp: find_fundamental_discriminant_def)
qed

theorem discriminant_search_results_witness:
  "choose_random_fundamental_discriminant 7 [0, 7, 5, 3] = Some (- 20)
   \<and> find_fundamental_discriminant 7 [0, 7, 5, 3] = Some (Inr (- 20))
   \<and> (\<exists>D. kronecker D 7 = 1
         \<and> (- 20) = (if kronecker (fundamental_discriminant D) 7 = 1
                then fundamental_discriminant D else 0))"
proof -
  have c: "choose_random_fundamental_discriminant 7 [0, 7, 5, 3] = Some (- 20)"
    by code_simp
  have f: "find_fundamental_discriminant 7 [0, 7, 5, 3] = Some (Inr (- 20))"
    by code_simp
  from discriminant_search_results [of 7 "[0, 7, 5, 3]" "- 20" "Inr (- 20)"] c f
  show ?thesis by blast
qed

section \<open>Results on the curve with a given \<open>j\<close>-invariant\<close>

text \<open>
  A prime \<open>p\<close> in the sense of \<open>is_prime\<close> divides a product only when it divides a
  factor, and every residue that \<open>p\<close> does not divide has an inverse, which \<open>gf_inv\<close>
  finds. For \<open>p > 3\<close> and \<open>c \<noteq> 0\<close> none of the three curves is singular: the
  discriminants are \<open>-16 \<sqdot> 27 c\<^sup>2\<close>, \<open>-16 \<sqdot> 4 c\<^sup>3\<close> and, with \<open>k\<close> the inverse of
  \<open>1728 - j0\<close>, \<open>-16 \<sqdot> 108 \<sqdot> 1728 c\<^sup>6 j0\<^sup>2 k\<^sup>3\<close>.
\<close>


lemma is_prime_divisors:
  assumes pr: "is_prime p" and d: "d dvd p" and pos: "0 < d"
  shows "d = 1 \<or> d = p"
proof (rule ccontr)
  assume neg: "\<not> (d = 1 \<or> d = p)"
  have p1: "1 < p" using pr by (rule is_prime_gt_1)
  have "d \<le> p" using d p1 by (intro zdvd_imp_le) simp_all
  with neg pos have mem: "d \<in> set [2..p - 1]" by simp
  have all: "\<forall>x\<in>set [2..p - 1]. p mod x \<noteq> 0"
    using pr unfolding is_prime_def list_all_iff by (rule conjunct2)
  from all mem have "p mod d \<noteq> 0" by (rule bspec)
  with d show False by (simp add: dvd_eq_mod_eq_0)
qed

lemma is_prime_coprime:
  assumes pr: "is_prime p" and nd: "\<not> p dvd a"
  shows "coprime p a"
proof -
  have p1: "1 < p" using pr by (rule is_prime_gt_1)
  have "gcd p a dvd p" by simp
  moreover have "0 < gcd p a" using p1 by (simp add: gcd_pos_int)
  ultimately have "gcd p a = 1 \<or> gcd p a = p" by (rule is_prime_divisors [OF pr])
  moreover have "gcd p a \<noteq> p"
  proof
    assume "gcd p a = p"
    then have "p dvd a" by (metis gcd_dvd2)
    with nd show False ..
  qed
  ultimately have "gcd p a = 1" by simp
  then show ?thesis by (simp only: coprime_iff_gcd_eq_1)
qed

lemma is_prime_ndvd_mult:
  assumes pr: "is_prime p" and a: "\<not> p dvd a" and b: "\<not> p dvd b"
  shows "\<not> p dvd a * b"
proof
  assume "p dvd a * b"
  moreover have "coprime p a" using pr a by (rule is_prime_coprime)
  ultimately have "p dvd b" by (simp add: coprime_dvd_mult_right_iff)
  with b show False ..
qed

lemma is_prime_ndvd_small:
  assumes pr: "is_prime p" and big: "3 < p"
  shows "\<not> p dvd 2" "\<not> p dvd 3"
proof -
  show "\<not> p dvd 2"
  proof
    assume "p dvd 2"
    then have "p \<le> 2" by (intro zdvd_imp_le) simp_all
    with big show False by simp
  qed
  show "\<not> p dvd 3"
  proof
    assume "p dvd 3"
    then have "p \<le> 3" by (intro zdvd_imp_le) simp_all
    with big show False by simp
  qed
qed

lemma gf_inv_correct:
  assumes pr: "is_prime p" and nd: "\<not> p dvd b"
  shows "(b * gf_inv p b) mod p = 1" and "0 \<le> gf_inv p b" and "gf_inv p b < p"
proof -
  have p1: "1 < p" using pr by (rule is_prime_gt_1)
  have "coprime p b" using pr nd by (rule is_prime_coprime)
  then have "gcd b p = 1" by (simp add: coprime_iff_gcd_eq_1 gcd.commute)
  with bezout_int [of b p] obtain u v where uv: "u * b + v * p = 1" by auto
  have "(b * u) mod p = (u * b + v * p) mod p" by (simp add: mult.commute)
  also have "\<dots> = 1" using uv p1 by simp
  finally have bu: "(b * u) mod p = 1" .
  have "(b * (u mod p)) mod p = (b * u) mod p" by (rule mod_mult_right_eq)
  with bu have good: "(b * (u mod p)) mod p = 1" by simp
  have mem: "u mod p \<in> set [0..p - 1]" using p1 by simp
  have "find (\<lambda>x. (b * x) mod p = 1) [0..p - 1] \<noteq> None"
    using good mem by (auto simp: find_None_iff)
  then obtain x where f: "find (\<lambda>x. (b * x) mod p = 1) [0..p - 1] = Some x" by auto
  then have x: "(b * x) mod p = 1" "x \<in> set [0..p - 1]"
    by (auto simp: find_Some_iff)
  have g: "gf_inv p b = x" using f by (simp add: gf_inv_def)
  show "(b * gf_inv p b) mod p = 1" using x g by simp
  show "0 \<le> gf_inv p b" using x g by simp
  show "gf_inv p b < p" using x g by simp
qed

lemma is_prime_ndvd_consts:
  assumes pr: "is_prime p" and big: "3 < p"
  shows "\<not> p dvd 16" "\<not> p dvd 27" "\<not> p dvd 4" "\<not> p dvd 108" "\<not> p dvd 1728"
proof -
  note n2 = is_prime_ndvd_small(1) [OF pr big]
  note n3 = is_prime_ndvd_small(2) [OF pr big]
  note m = is_prime_ndvd_mult [OF pr]
  have "\<not> p dvd 2 * 2" by (intro m n2)
  then show n4: "\<not> p dvd 4" by simp
  have "\<not> p dvd 4 * 4" by (intro m n4)
  then show n16: "\<not> p dvd 16" by simp
  have "\<not> p dvd 3 * (3 * 3)" by (intro m n3)
  then show n27: "\<not> p dvd 27" by simp
  have "\<not> p dvd 4 * 27" by (intro m n4 n27)
  then show n108: "\<not> p dvd 108" by simp
  have "\<not> p dvd 16 * 108" by (intro m n16 n108)
  then show "\<not> p dvd 1728" by simp
qed

lemma elliptic_curve_nonsingular:
  assumes pr: "is_prime p" and big: "3 < p"
    and nd: "\<not> p dvd 4 * (a4 * a4 * a4) + 27 * (a6 * a6)"
  shows "elliptic_curve p a4 a6 = Inr \<lparr>field_p = p, coeff_a4 = a4 mod p, coeff_a6 = a6 mod p\<rparr>"
proof -
  define W where "W = 4 * (a4 * a4 * a4) + 27 * (a6 * a6)"
  have "\<not> p dvd 16 * W"
    unfolding W_def
    by (intro is_prime_ndvd_mult [OF pr] is_prime_ndvd_consts(1) [OF pr big] nd)
  then have "\<not> p dvd - 16 * W" by simp
  then have "(- 16 * W) mod p \<noteq> 0" by (simp add: dvd_eq_mod_eq_0)
  then show ?thesis unfolding W_def elliptic_curve_def by simp
qed

lemma twist_discriminant:
  assumes pr: "is_prime p" and big: "3 < p"
    and c: "\<not> p dvd c" and j: "\<not> p dvd j" and m: "\<not> p dvd 1728 - j"
  shows "\<not> p dvd 4 * (gf_div p (3 * (c * c) * j) (1728 - j)
                          * gf_div p (3 * (c * c) * j) (1728 - j)
                          * gf_div p (3 * (c * c) * j) (1728 - j))
                 + 27 * (gf_div p (2 * (c * c * c) * j) (1728 - j)
                          * gf_div p (2 * (c * c * c) * j) (1728 - j))"
proof -
  define k where "k = gf_inv p (1728 - j)"
  define X where "X = 3 * (c * c) * j * k"
  define Y where "Y = 2 * (c * c * c) * j * k"
  define M where "M = 108 * ((c * c * c) * (c * c * c) * ((j * j) * (k * k)))"
  have p1: "1 < p" using pr by (rule is_prime_gt_1)
  have inv: "((1728 - j) * k) mod p = 1"
    unfolding k_def using pr m by (rule gf_inv_correct(1))
  have A: "gf_div p (3 * (c * c) * j) (1728 - j) = X mod p"
    by (simp add: gf_div_def X_def k_def)
  have B: "gf_div p (2 * (c * c * c) * j) (1728 - j) = Y mod p"
    by (simp add: gf_div_def Y_def k_def)
  have nk: "\<not> p dvd k"
  proof
    assume "p dvd k"
    then have "p dvd (1728 - j) * k" by simp
    then have "((1728 - j) * k) mod p = 0" by (simp add: dvd_eq_mod_eq_0)
    with inv show False by simp
  qed
  have e1: "(4 * (X mod p * (X mod p) * (X mod p)) + 27 * (Y mod p * (Y mod p))) mod p
      = (4 * (X * X * X) + 27 * (Y * Y)) mod p"
  proof -
    have x: "(X mod p) mod p = X mod p" and y: "(Y mod p) mod p = Y mod p"
      by simp_all
    have xx: "(X mod p * (X mod p)) mod p = (X * X) mod p"
      by (rule mod_mult_cong [OF x x])
    have xxx: "(X mod p * (X mod p) * (X mod p)) mod p = (X * X * X) mod p"
      by (rule mod_mult_cong [OF xx x])
    have yy: "(Y mod p * (Y mod p)) mod p = (Y * Y) mod p"
      by (rule mod_mult_cong [OF y y])
    have l: "(4 * (X mod p * (X mod p) * (X mod p))) mod p = (4 * (X * X * X)) mod p"
      by (rule mod_mult_cong [OF refl xxx])
    have r: "(27 * (Y mod p * (Y mod p))) mod p = (27 * (Y * Y)) mod p"
      by (rule mod_mult_cong [OF refl yy])
    show ?thesis by (rule mod_add_cong [OF l r])
  qed
  have e2: "4 * (X * X * X) + 27 * (Y * Y) = M * (j * k + 1)"
    unfolding X_def Y_def M_def by (simp add: algebra_simps)
  have "(j * k + 1) mod p = (j * k + ((1728 - j) * k) mod p) mod p"
    by (simp only: inv)
  also have "\<dots> = (j * k + (1728 - j) * k) mod p"
    by (rule mod_add_right_eq)
  also have "j * k + (1728 - j) * k = 1728 * k" by (simp add: algebra_simps)
  finally have e3: "(j * k + 1) mod p = (1728 * k) mod p" .
  have "(M * (j * k + 1)) mod p = (M * ((j * k + 1) mod p)) mod p"
    by (rule mod_mult_right_eq [symmetric])
  also have "\<dots> = (M * ((1728 * k) mod p)) mod p" by (simp only: e3)
  also have "\<dots> = (M * (1728 * k)) mod p" by (rule mod_mult_right_eq)
  finally have e4: "(M * (j * k + 1)) mod p = (M * (1728 * k)) mod p" .
  note mu = is_prime_ndvd_mult [OF pr]
  have nM: "\<not> p dvd M"
    unfolding M_def
    by (intro mu is_prime_ndvd_consts(4) [OF pr big] c j nk)
  have "\<not> p dvd M * (1728 * k)"
    by (intro mu nM is_prime_ndvd_consts(5) [OF pr big] nk)
  then have "(M * (1728 * k)) mod p \<noteq> 0" by (simp add: dvd_eq_mod_eq_0)
  with e1 e2 e4 have
    "(4 * (X mod p * (X mod p) * (X mod p)) + 27 * (Y mod p * (Y mod p))) mod p \<noteq> 0"
    by simp
  then show ?thesis unfolding A B by (simp add: dvd_eq_mod_eq_0)
qed

lemma gf_div_mult:
  assumes pr: "is_prime p" and m: "\<not> p dvd b"
  shows "(gf_div p a b * b) mod p = a mod p"
    and "0 \<le> gf_div p a b" and "gf_div p a b < p"
proof -
  have p1: "1 < p" using pr by (rule is_prime_gt_1)
  have inv: "(b * gf_inv p b) mod p = 1" using pr m by (rule gf_inv_correct(1))
  have "(gf_div p a b * b) mod p = ((a * gf_inv p b) * b) mod p"
    unfolding gf_div_def by (rule mod_mult_left_eq)
  also have "(a * gf_inv p b) * b = a * (b * gf_inv p b)" by (simp add: mult.assoc mult.commute)
  also have "(a * (b * gf_inv p b)) mod p = (a * ((b * gf_inv p b) mod p)) mod p"
    by (rule mod_mult_right_eq [symmetric])
  also have "\<dots> = a mod p" by (simp only: inv mult_1_right)
  finally show "(gf_div p a b * b) mod p = a mod p" .
  show "0 \<le> gf_div p a b" using p1 by (simp add: gf_div_def)
  show "gf_div p a b < p" using p1 by (simp add: gf_div_def)
qed

text \<open>
  C9: for a prime \<open>p > 3\<close> and a twist parameter \<open>c \<noteq> 0\<close> the construction yields the
  curve with \<open>(a4, a6) = (0, c)\<close> when \<open>j0 = 0\<close>, \<open>(c, 0)\<close> when \<open>j0 = 1728\<close>, and
  otherwise the field elements \<open>a4 = 3 c\<^sup>2 j0 / (1728 - j0)\<close>,
  \<open>a6 = 2 c\<^sup>3 j0 / (1728 - j0)\<close> (stated through \<open>a4 (1728 - j0) = 3 c\<^sup>2 j0\<close> in the
  field). \<open>curve_from_j\<close> is a function of \<open>(p, j0, c)\<close> alone, so two constructions
  from the same data give the same \<open>(a4, a6)\<close>.
\<close>

theorem curve_from_j_cases:
  assumes pr: "is_prime p" and big: "3 < p" and c: "c mod p \<noteq> 0"
  shows "(j0 mod p = 0 \<longrightarrow>
            curve_from_j p j0 c = Inr \<lparr>field_p = p, coeff_a4 = 0, coeff_a6 = c mod p\<rparr>)
       \<and> (j0 mod p = 1728 mod p \<longrightarrow>
            curve_from_j p j0 c = Inr \<lparr>field_p = p, coeff_a4 = c mod p, coeff_a6 = 0\<rparr>)
       \<and> (j0 mod p \<noteq> 0 \<and> j0 mod p \<noteq> 1728 mod p \<longrightarrow>
            (\<exists>a4 a6. curve_from_j p j0 c = Inr \<lparr>field_p = p, coeff_a4 = a4, coeff_a6 = a6\<rparr>
               \<and> 0 \<le> a4 \<and> a4 < p \<and> 0 \<le> a6 \<and> a6 < p
               \<and> (a4 * (1728 - j0)) mod p = (3 * (c * c) * j0) mod p
               \<and> (a6 * (1728 - j0)) mod p = (2 * (c * c * c) * j0) mod p))"
proof (intro conjI impI)
  have nc: "\<not> p dvd c" using c by (simp add: dvd_eq_mod_eq_0)
  note mu = is_prime_ndvd_mult [OF pr]
  note k = is_prime_ndvd_consts [OF pr big]
  have n1728: "1728 mod p \<noteq> 0" using k(5) by (simp add: dvd_eq_mod_eq_0)
  {
    assume j: "j0 mod p = 0"
    have "\<not> p dvd 27 * (c * c)" by (intro mu k(2) nc)
    then have "\<not> p dvd 4 * (0 * 0 * 0) + 27 * (c * c)" by simp
    from elliptic_curve_nonsingular [OF pr big this] j
    show "curve_from_j p j0 c = Inr \<lparr>field_p = p, coeff_a4 = 0, coeff_a6 = c mod p\<rparr>"
      by (simp add: curve_from_j_def)
  }
  {
    assume j: "j0 mod p = 1728 mod p"
    with n1728 have j': "j0 mod p \<noteq> 0" by simp
    have "\<not> p dvd 4 * (c * c * c)" by (intro mu k(3) nc)
    then have "\<not> p dvd 4 * (c * c * c) + 27 * (0 * 0)" by simp
    from elliptic_curve_nonsingular [OF pr big this] j j'
    show "curve_from_j p j0 c = Inr \<lparr>field_p = p, coeff_a4 = c mod p, coeff_a6 = 0\<rparr>"
      by (simp add: curve_from_j_def)
  }
  {
    assume j: "j0 mod p \<noteq> 0 \<and> j0 mod p \<noteq> 1728 mod p"
    then have nj: "\<not> p dvd j0" by (simp add: dvd_eq_mod_eq_0)
    have nm: "\<not> p dvd 1728 - j0"
    proof
      assume "p dvd 1728 - j0"
      then have "(1728 - j0) mod p = 0" by (simp add: dvd_eq_mod_eq_0)
      then have "1728 mod p = j0 mod p" by (metis mod_eq_dvd_iff dvd_eq_mod_eq_0)
      with j show False by simp
    qed
    define a4 where "a4 = gf_div p (3 * (c * c) * j0) (1728 - j0)"
    define a6 where "a6 = gf_div p (2 * (c * c * c) * j0) (1728 - j0)"
    have r4: "0 \<le> a4" "a4 < p" and r6: "0 \<le> a6" "a6 < p"
      unfolding a4_def a6_def by (rule gf_div_mult(2,3) [OF pr nm])+
    have "\<not> p dvd 4 * (a4 * a4 * a4) + 27 * (a6 * a6)"
      unfolding a4_def a6_def by (rule twist_discriminant [OF pr big nc nj nm])
    from elliptic_curve_nonsingular [OF pr big this] r4 r6
    have "elliptic_curve p a4 a6 = Inr \<lparr>field_p = p, coeff_a4 = a4, coeff_a6 = a6\<rparr>"
      by simp
    with j have "curve_from_j p j0 c = Inr \<lparr>field_p = p, coeff_a4 = a4, coeff_a6 = a6\<rparr>"
      by (simp add: curve_from_j_def a4_def a6_def)
    moreover have "(a4 * (1728 - j0)) mod p = (3 * (c * c) * j0) mod p"
      unfolding a4_def by (rule gf_div_mult(1) [OF pr nm])
    moreover have "(a6 * (1728 - j0)) mod p = (2 * (c * c * c) * j0) mod p"
      unfolding a6_def by (rule gf_div_mult(1) [OF pr nm])
    ultimately show "\<exists>a4 a6. curve_from_j p j0 c = Inr \<lparr>field_p = p, coeff_a4 = a4, coeff_a6 = a6\<rparr>
               \<and> 0 \<le> a4 \<and> a4 < p \<and> 0 \<le> a6 \<and> a6 < p
               \<and> (a4 * (1728 - j0)) mod p = (3 * (c * c) * j0) mod p
               \<and> (a6 * (1728 - j0)) mod p = (2 * (c * c * c) * j0) mod p"
      using r4 r6 by blast
  }
qed

theorem curve_from_j_cases_witness:
  "is_prime 7 \<and> (3::int) < 7 \<and> (2::int) mod 7 \<noteq> 0
   \<and> curve_from_j 7 0 2 = Inr \<lparr>field_p = 7, coeff_a4 = 0, coeff_a6 = 2\<rparr>
   \<and> curve_from_j 7 6 2 = Inr \<lparr>field_p = 7, coeff_a4 = 2, coeff_a6 = 0\<rparr>
   \<and> curve_from_j 7 3 2 = Inr \<lparr>field_p = 7, coeff_a4 = 5, coeff_a6 = 2\<rparr>
   \<and> (5 * (1728 - 3)) mod 7 = (3 * (2 * 2) * 3) mod (7::int)"
proof -
  have p: "is_prime 7" by code_simp
  have c3: "curve_from_j 7 3 2 = Inr \<lparr>field_p = 7, coeff_a4 = 5, coeff_a6 = 2\<rparr>"
    by code_simp
  from curve_from_j_cases [OF p, of 2 0] curve_from_j_cases [OF p, of 2 6] c3 p
  show ?thesis by simp
qed

section \<open>Results on the Barreto-Naehrig command line\<close>

text \<open>
  When the scan is exhausted before any success, the generator stops without a
  \<^verbatim>\<open>yield\<close>, the \<^verbatim>\<open>for\<close> loop of the command line has no pass, and the program ends
  with nothing printed and status 0.
\<close>

lemma bn_scan_exhausted:
  "\<not> bit_length (bn_p s) \<le> p_max \<Longrightarrow> bn_scan p_max s = Some s"
  by (subst bn_scan.simps) simp

lemma bn_main_loop_exhausted:
  assumes "\<not> bit_length (bn_p s) \<le> p_max" and "\<not> bn_found s"
  shows "bn_main_loop build p_max s remaining out = Some (out, 0, None)"
  using assms
  by (subst bn_main_loop.simps) (simp add: bn_next_def bn_scan_exhausted)

text \<open>
  C6 (the code departs from it): on an exhausted scan the command line should print a
  diagnostic message and exit with a non-zero status. With \<^verbatim>\<open>--m 100 --p-max 64\<close> the
  first \<open>p = P(13698539)\<close> has 100 bits, the scan is exhausted at once, and the run
  prints nothing and exits with status 0: the test \<^verbatim>\<open>curve is None\<close> of line 92 never
  sees the \<^verbatim>\<open>None\<close> of \<^verbatim>\<open>return None\<close>, which ends the iteration.
\<close>

theorem bn_main_exhausted_at_start:
  "bn_main build 10000 100 64 = Some ([], 0, None)"
proof -
  have b: "bit_length (bn_p (bn_init 100)) = 100" by code_simp
  have f: "\<not> bn_found (bn_init 100)" by (simp add: bn_init_def)
  show ?thesis
    unfolding bn_main_def
    by (rule bn_main_loop_exhausted) (simp_all add: b f)
qed

text \<open>
  After a success the generator does not stop either: \<^verbatim>\<open>found_curve\<close> stays true, so an
  exhausted scan falls through to the curve construction with the last \<open>p\<close> and \<open>n\<close>.
  With \<^verbatim>\<open>--m 4 --p-max 5\<close> and a construction that succeeds, the curve for
  \<open>p = 373\<close> (9 bits) is yielded, and then yielded again.
\<close>

lemma bn_main_repeats_last_curve:
  "bn_main (\<lambda>p n. Some (Inr (p, n))) 3 4 5
     = Some ([PrintCurve (19, 13), PrintCurve (373, 349), PrintCurve (373, 349)], 0, None)"
  by code_simp

text \<open>
  The message of line 93 is never printed, on any run that ends: every item the generator
  yields is a tuple.
\<close>

lemma bn_next_yields_tuple:
  "bn_next build p_max s \<noteq> Some (Yield None s')"
  by (simp add: bn_next_def split: option.splits sum.splits)

lemma bn_main_loop_never_reports:
  assumes "bn_main_loop build p_max s remaining out = Some res"
  shows "PrintNoCurve \<notin> set out \<longrightarrow> PrintNoCurve \<notin> set (fst res)"
proof (rule bn_main_loop.raw_induct [where P = "\<lambda>build p_max s remaining out res.
           PrintNoCurve \<notin> set out \<longrightarrow> PrintNoCurve \<notin> set (fst res)",
      OF _ assms])
  fix f :: "(int \<Rightarrow> int \<Rightarrow> (error + 'a) option) \<Rightarrow> int \<Rightarrow> bn_state \<Rightarrow> int \<Rightarrow> 'a printed list
     \<Rightarrow> 'a run option"
    and build p_max s remaining out res
  assume IH: "\<And>build p_max s remaining out res. f build p_max s remaining out = Some res \<Longrightarrow>
         PrintNoCurve \<notin> set out \<longrightarrow> PrintNoCurve \<notin> set (fst res)"
    and eq: "(case bn_next build p_max s of
        None \<Rightarrow> None
      | Some Stop \<Rightarrow> Some (out, 0, None)
      | Some (Raise e) \<Rightarrow> Some (out, 1, Some e)
      | Some (Yield None s') \<Rightarrow> Some (out @ [PrintNoCurve], 1, None)
      | Some (Yield (Some (p, E, n)) s') \<Rightarrow>
          if remaining - 1 = 0 then Some (out @ [PrintCurve E], 0, None)
          else f build p_max s' (remaining - 1) (out @ [PrintCurve E])) = Some res"
  show "PrintNoCurve \<notin> set out \<longrightarrow> PrintNoCurve \<notin> set (fst res)"
  proof
    assume out: "PrintNoCurve \<notin> set out"
    show "PrintNoCurve \<notin> set (fst res)"
    proof (cases "bn_next build p_max s")
      case None
      with eq show ?thesis by simp
    next
      case (Some g)
      show ?thesis
      proof (cases g)
        case Stop
        with Some eq out show ?thesis by auto
      next
        case (Raise e)
        with Some eq out show ?thesis by auto
      next
        case (Yield item s')
        with Some bn_next_yields_tuple [of build p_max s s'] obtain p E n
          where item: "item = Some (p, E, n)" by (cases item) auto
        show ?thesis
        proof (cases "remaining - 1 = 0")
          case True
          with Some Yield item eq out show ?thesis by auto
        next
          case False
          with Some Yield item eq have
            "f build p_max s' (remaining - 1) (out @ [PrintCurve E]) = Some res"
            by simp
          from IH [OF this] out show ?thesis by simp
        qed
      qed
    qed
  qed
qed

section \<open>Results on the checks of the CM generator\<close>




section \<open>Results on Cornacchia\<close>

text \<open>
  \<^verbatim>\<open>cornacchia\<close> never returns a pair: it returns \<^verbatim>\<open>None\<close> when the Kronecker test
  fails and raises in \<^verbatim>\<open>find_sqrt\<close> otherwise.
\<close>

lemma cornacchia_never_returns_pair: "cornacchia p d \<noteq> Inr (Some xy)"
  by (simp add: cornacchia_def find_sqrt_def)

text \<open>
  C4 (the code departs from it): \<^verbatim>\<open>cornacchia(5, 1)\<close> should return \<open>(2, 1)\<close>.
  \<open>(-1 / 5) = 1\<close>, so the call reaches \<^verbatim>\<open>find_sqrt(5, -1)\<close>, and line 25 raises
  \<^verbatim>\<open>RuntimeError\<close>.
\<close>

theorem cornacchia_five_one_raises:
  "kronecker (- 1) 5 = 1 \<and> cornacchia 5 1 = Inl RuntimeError"
  by code_simp

text \<open>
  With \<^verbatim>\<open>^\<close> read as a power, as in the docstring's Sage session, the same lines give
  \<open>(2, 1)\<close> for \<open>(5, 1)\<close>, and every pair they return solves \<open>x\<^sup>2 + d y\<^sup>2 = p\<close>.
\<close>

lemma cornacchia_power_five_one: "cornacchia_power 5 1 = Inr (Some (2, 1))"
  by code_simp

lemma cornacchia_power_sound:
  assumes "cornacchia_power p d = Inr (Some (x, y))"
  shows "x * x + d * (y * y) = p"
proof -
  from assms obtain t where d0: "d \<noteq> 0" and m: "(p - t * t) mod d = 0"
    and sq: "is_square ((p - t * t) div d)" and x: "x = t"
    and y: "y = isqrt ((p - t * t) div d)"
    by (auto simp: cornacchia_power_def split: if_splits sum.splits)
  from sq have "y * y = (p - t * t) div d" unfolding y by (simp add: is_square_def)
  moreover from m have "d * ((p - t * t) div d) = p - t * t" by auto
  ultimately show ?thesis unfolding x by simp
qed

section \<open>Results on the integer square root and the continued-fraction step\<close>

text \<open>
  The integer square root is the floor of the real square root, \<open>is_square\<close> holds exactly of
  the squares, \<open>floor_surd\<close> is the floor of \<open>(P + sqrt D) / Q\<close>, the division in
  \<open>pell_step\<close> is exact along the expansion, and every pair returned by \<open>pell_solve_2\<close>
  solves \<open>x\<^sup>2 - D y\<^sup>2 = m\<close>.
\<close>

lemma isqrt_bounds:
  "0 \<le> n \<Longrightarrow> 0 \<le> isqrt n \<and> isqrt n * isqrt n \<le> n \<and> n < (isqrt n + 1) * (isqrt n + 1)"
proof (induction n rule: isqrt.induct)
  case (1 n)
  show ?case
  proof (cases "n < 4")
    case True
    then have "isqrt n = (if n < 1 then 0 else 1)" by (subst isqrt.simps) simp
    with True 1(2) show ?thesis by auto
  next
    case False
    define m where "m = n div 4"
    define r0 where "r0 = isqrt m"
    from False have m0: "0 \<le> m" unfolding m_def by simp
    from 1(1) [OF False] m0 have IH: "0 \<le> r0" "r0 * r0 \<le> m" "m < (r0 + 1) * (r0 + 1)"
      unfolding m_def r0_def by simp_all
    have n4: "4 * m \<le> n" "n < 4 * m + 4" unfolding m_def by presburger+
    have e1: "(2 * r0) * (2 * r0) = 4 * (r0 * r0)" by simp
    have e2: "(2 * r0 + 1 + 1) * (2 * r0 + 1 + 1) = 4 * ((r0 + 1) * (r0 + 1))"
      by (simp add: algebra_simps)
    have lo: "(2 * r0) * (2 * r0) \<le> n" using e1 IH(2) n4(1) by linarith
    have hi: "n < (2 * r0 + 1 + 1) * (2 * r0 + 1 + 1)" using e2 IH(3) n4(2) by linarith
    have eq: "isqrt n = isqrt_step n (2 * r0)"
      using False unfolding r0_def m_def by (subst isqrt.simps) simp
    show ?thesis
    proof (cases "(2 * r0 + 1) * (2 * r0 + 1) \<le> n")
      case True
      then have "isqrt n = 2 * r0 + 1" unfolding eq isqrt_step_def by simp
      with True hi IH(1) show ?thesis by simp
    next
      case False
      then have "isqrt n = 2 * r0" unfolding eq isqrt_step_def by simp
      with False lo IH(1) show ?thesis by simp
    qed
  qed
qed

lemma isqrt_floor_sqrt:
  assumes "0 \<le> n"
  shows "isqrt n = \<lfloor>sqrt (real_of_int n)\<rfloor>"
proof -
  define r where "r = isqrt n"
  from isqrt_bounds [OF assms] have r: "0 \<le> r" "r * r \<le> n" "n < (r + 1) * (r + 1)"
    unfolding r_def by simp_all
  have "(real_of_int r)\<^sup>2 \<le> real_of_int n"
    using r(2) unfolding power2_eq_square by (metis of_int_le_iff of_int_mult)
  then have lo: "real_of_int r \<le> sqrt (real_of_int n)" by (rule real_le_rsqrt)
  have "real_of_int n < (real_of_int (r + 1))\<^sup>2"
    using r(3) unfolding power2_eq_square by (metis of_int_less_iff of_int_mult)
  moreover have "0 \<le> real_of_int (r + 1)" using r(1) by simp
  ultimately have "sqrt (real_of_int n) < real_of_int (r + 1)"
    by (intro real_less_lsqrt) simp_all
  then have hi: "sqrt (real_of_int n) < real_of_int r + 1" by simp
  from lo hi have "\<lfloor>sqrt (real_of_int n)\<rfloor> = r" by (rule floor_unique)
  then show ?thesis unfolding r_def by simp
qed

lemma is_square_iff: "is_square n \<longleftrightarrow> (\<exists>z. n = z * z)"
proof
  assume "is_square n"
  then show "\<exists>z. n = z * z" unfolding is_square_def by metis
next
  assume "\<exists>z. n = z * z"
  then obtain z where z: "n = z * z" by blast
  have n0: "0 \<le> n" unfolding z by simp
  define a where "a = \<bar>z\<bar>"
  have a: "0 \<le> a" "n = a * a" unfolding a_def z by simp_all
  define r where "r = isqrt n"
  from isqrt_bounds [OF n0] have r: "0 \<le> r" "r * r \<le> n" "n < (r + 1) * (r + 1)"
    unfolding r_def by simp_all
  have "r = a"
  proof (rule ccontr)
    assume "r \<noteq> a"
    then consider "r + 1 \<le> a" | "a + 1 \<le> r" by linarith
    then show False
    proof cases
      case 1
      with r(1) have "(r + 1) * (r + 1) \<le> a * a" by (intro mult_mono) simp_all
      with r(3) a(2) show False by simp
    next
      case 2
      with a(1) have "(a + 1) * (a + 1) \<le> r * r" by (intro mult_mono) simp_all
      moreover have "a * a < (a + 1) * (a + 1)" using a(1) by (simp add: algebra_simps)
      ultimately show False using r(2) a(2) by simp
    qed
  qed
  then show "is_square n" unfolding is_square_def r_def [symmetric] using a n0 by simp
qed

lemma ceil_sqrt_ceiling:
  assumes n: "0 \<le> n"
  shows "ceil_sqrt n = \<lceil>sqrt (real_of_int n)\<rceil>"
proof -
  define s where "s = sqrt (real_of_int n)"
  have fl: "\<lfloor>s\<rfloor> = isqrt n" unfolding s_def by (rule isqrt_floor_sqrt [OF n, symmetric])
  have "s = of_int \<lfloor>s\<rfloor> \<longleftrightarrow> is_square n"
  proof
    assume "s = of_int \<lfloor>s\<rfloor>"
    then have "s * s = of_int (isqrt n * isqrt n)" unfolding fl by simp
    moreover have "s * s = real_of_int n" unfolding s_def using n by simp
    ultimately have "real_of_int n = real_of_int (isqrt n * isqrt n)" by simp
    then have "n = isqrt n * isqrt n" by (simp only: of_int_eq_iff)
    with n show "is_square n" unfolding is_square_def by simp
  next
    assume "is_square n"
    then have "isqrt n * isqrt n = n" unfolding is_square_def by simp
    then have "(real_of_int (isqrt n))\<^sup>2 = real_of_int n"
      unfolding power2_eq_square by (metis of_int_mult)
    moreover have "0 \<le> real_of_int (isqrt n)" using isqrt_bounds [OF n] by simp
    ultimately have "sqrt (real_of_int n) = real_of_int (isqrt n)"
      by (rule real_sqrt_unique)
    then have "s = real_of_int (isqrt n)" unfolding s_def .
    then show "s = of_int \<lfloor>s\<rfloor>" by simp
  qed
  then show ?thesis
    unfolding ceil_sqrt_def s_def [symmetric] ceiling_altdef fl by simp
qed

lemma floor_surd_real:
  assumes D: "0 \<le> D" and Q: "Q \<noteq> 0"
  shows "floor_surd P D Q = \<lfloor>(real_of_int P + sqrt (real_of_int D)) / real_of_int Q\<rfloor>"
proof (cases "0 < Q")
  case True
  have "\<lfloor>(real_of_int P + sqrt (real_of_int D)) / real_of_int Q\<rfloor>
      = \<lfloor>real_of_int P + sqrt (real_of_int D)\<rfloor> div Q"
    using True by (intro floor_divide_real_eq_div) simp
  also have "\<lfloor>real_of_int P + sqrt (real_of_int D)\<rfloor> = P + \<lfloor>sqrt (real_of_int D)\<rfloor>"
    by simp
  finally show ?thesis
    using True unfolding floor_surd_def isqrt_floor_sqrt [OF D] by simp
next
  case False
  with Q have neg: "Q < 0" by simp
  define x where "x = real_of_int P + sqrt (real_of_int D)"
  have "x / real_of_int Q = (- x) / real_of_int (- Q)" by simp
  also have "\<lfloor>\<dots>\<rfloor> = \<lfloor>- x\<rfloor> div (- Q)"
    using neg by (intro floor_divide_real_eq_div) simp
  also have "\<lfloor>- x\<rfloor> = - \<lceil>x\<rceil>" by (simp add: ceiling_def)
  also have "\<lceil>x\<rceil> = P + \<lceil>sqrt (real_of_int D)\<rceil>"
  proof -
    have "\<lceil>x\<rceil> = \<lceil>sqrt (real_of_int D) + of_int P\<rceil>"
      unfolding x_def by (simp only: add.commute)
    also have "\<dots> = \<lceil>sqrt (real_of_int D)\<rceil> + P" by (rule ceiling_add_of_int)
    finally show ?thesis by simp
  qed
  finally have "\<lfloor>x / real_of_int Q\<rfloor> = (- P - \<lceil>sqrt (real_of_int D)\<rceil>) div (- Q)"
    by simp
  then show ?thesis
    using neg unfolding floor_surd_def x_def ceil_sqrt_ceiling [OF D] by simp
qed

lemma pell_step_exact:
  assumes len: "length (cf_P s) = Suc i" "length (cf_Q s) = Suc i"
    and dv: "cf_Q s ! i dvd D - cf_P s ! i * cf_P s ! i"
    and step: "pell_step D i s = Inr (i', s')"
  shows "i' = Suc i"
    and "length (cf_P s') = Suc i'" and "length (cf_Q s') = Suc i'"
    and "cf_Q s' ! i' * cf_Q s ! i = D - cf_P s' ! i' * cf_P s' ! i'"
    and "cf_Q s' ! i' dvd D - cf_P s' ! i' * cf_P s' ! i'"
proof -
  define Q where "Q = cf_Q s ! i"
  define P where "P = cf_P s ! i"
  define a where "a = cf_a s ! i"
  define P' where "P' = a * Q - P"
  define Q' where "Q' = (D - P' * P') div Q"
  from step have Q0: "Q \<noteq> 0" and Q'0: "Q' \<noteq> 0"
    unfolding pell_step_def Q_def Q'_def P'_def a_def P_def
    by (auto simp: Let_def split: if_splits)
  from step Q0 Q'0 have i': "i' = Suc i"
    and s': "cf_P s' = cf_P s @ [P']" "cf_Q s' = cf_Q s @ [Q']"
    unfolding pell_step_def Q_def Q'_def P'_def a_def P_def
    by (auto simp: Let_def split: if_splits)
  have nP: "cf_P s' ! i' = P'" unfolding s' i' using len(1) by (metis nth_append_length)
  have nQ: "cf_Q s' ! i' = Q'" unfolding s' i' using len(2) by (metis nth_append_length)
  have eq: "D - P' * P' = (D - P * P) + Q * (2 * a * P - a * a * Q)"
    unfolding P'_def by (simp add: algebra_simps)
  have "Q dvd D - P * P" using dv unfolding Q_def P_def .
  moreover have "Q dvd Q * (2 * a * P - a * a * Q)" by (rule dvd_triv_left)
  ultimately have "Q dvd (D - P * P) + Q * (2 * a * P - a * a * Q)" by (rule dvd_add)
  then have d: "Q dvd D - P' * P'" unfolding eq .
  then have ex: "Q' * Q = D - P' * P'" unfolding Q'_def by simp
  show "i' = Suc i" by (rule i')
  show "length (cf_P s') = Suc i'" unfolding s' i' using len by simp
  show "length (cf_Q s') = Suc i'" unfolding s' i' using len by simp
  show "cf_Q s' ! i' * cf_Q s ! i = D - cf_P s' ! i' * cf_P s' ! i'"
    unfolding nP nQ Q_def [symmetric] by (rule ex)
  show "cf_Q s' ! i' dvd D - cf_P s' ! i' * cf_P s' ! i'"
    unfolding nP nQ using ex by (metis dvd_triv_left)
qed

lemma pell_step_exact_init:
  "length (cf_P (cf_init D)) = Suc 1 \<and> length (cf_Q (cf_init D)) = Suc 1
   \<and> cf_Q (cf_init D) ! 1 dvd D - cf_P (cf_init D) ! 1 * cf_P (cf_init D) ! 1"
  by (simp add: cf_init_def)

lemma pell_2_at_sound:
  assumes "(x, y') \<in> set (pell_2_at D m y)"
  shows "x * x - D * (y' * y') = m"
proof -
  from assms have sq: "is_square (m + D * (y * y))" and y: "y' = y"
    and x: "x = isqrt (m + D * (y * y)) \<or> x = - isqrt (m + D * (y * y))"
    unfolding pell_2_at_def by (auto split: if_splits)
  from sq have "isqrt (m + D * (y * y)) * isqrt (m + D * (y * y)) = m + D * (y * y)"
    unfolding is_square_def by simp
  with x have "x * x = m + D * (y * y)" by auto
  then show ?thesis unfolding y by simp
qed

lemma pell_solve_2_sound:
  assumes "pell_solve_2 D m = Some (Inr sols)" and "(x, y) \<in> set sols"
  shows "x * x - D * (y * y) = m"
proof -
  from assms(1) have "\<exists>ys. sols = concat (map (pell_2_at D m) ys)"
    unfolding pell_solve_2_def
    by (auto split: if_splits option.splits sum.splits prod.splits)
  then obtain ys where "sols = concat (map (pell_2_at D m) ys)" by blast
  with assms(2) obtain y0 where "(x, y) \<in> set (pell_2_at D m y0)" by auto
  then show ?thesis by (rule pell_2_at_sound)
qed

end
